theory Spec2Isabelle
  imports Main "HOL-Library.Sublist"
begin

section \<open>Python values used by server.py\<close>

text \<open>
  A Python \<open>str\<close> is modelled as a \<open>string\<close>; one \<open>char\<close> stands for one code point
  below 256.  Exceptions are values of \<open>py_error\<close>; a function that can raise returns
  \<open>py_error + 'a\<close> with \<open>Inl\<close> for the exception.
\<close>

datatype py_error = IndexError | KeyError | EvalError

abbreviation nl :: char where
  "nl \<equiv> CHR 0x0A"

text \<open>\<open>str.isspace\<close> on one character, for code points below 256.\<close>

definition py_isspace :: "char \<Rightarrow> bool" where
  "py_isspace c = (of_char c \<in> {9::nat, 10, 11, 12, 13, 28, 29, 30, 31, 32, 133, 160})"

definition lstrip :: "string \<Rightarrow> string" where
  "lstrip s = dropWhile py_isspace s"

definition rstrip :: "string \<Rightarrow> string" where
  "rstrip s = rev (dropWhile py_isspace (rev s))"

text \<open>\<open>s.strip()\<close>\<close>

definition strip :: "string \<Rightarrow> string" where
  "strip s = rstrip (lstrip s)"

text \<open>\<open>s.split(sep)\<close> for a separator of one character: never the empty list.\<close>

fun split_on :: "char \<Rightarrow> string \<Rightarrow> string list" where
  "split_on sep [] = [[]]"
| "split_on sep (c # cs) =
     (if c = sep then [] # split_on sep cs
      else (case split_on sep cs of [] \<Rightarrow> [[c]] | w # ws \<Rightarrow> (c # w) # ws))"

text \<open>\<open>s.find(pat)\<close>: the lowest index of an occurrence, \<open>None\<close> for Python's \<open>-1\<close>.\<close>

fun find_str :: "string \<Rightarrow> string \<Rightarrow> nat option" where
  "find_str pat [] = (if pat = [] then Some 0 else None)"
| "find_str pat (c # cs) =
     (if prefix pat (c # cs) then Some 0 else map_option Suc (find_str pat cs))"

text \<open>
  \<open>s.replace(pat, rep)\<close>, which is also \<open>re.sub(pat, rep, s)\<close> for a pattern without
  metacharacters: occurrences are replaced from left to right, without overlap.  The
  source only uses non-empty patterns.
\<close>

fun replace_all :: "string \<Rightarrow> string \<Rightarrow> string \<Rightarrow> string" where
  "replace_all pat rep [] = []"
| "replace_all pat rep (c # cs) =
     (if pat \<noteq> [] \<and> prefix pat (c # cs)
      then rep @ replace_all pat rep (drop (length pat - 1) cs)
      else c # replace_all pat rep cs)"

text \<open>\<open>s[-j:]\<close> for \<open>j \<ge> 1\<close>: the last \<open>j\<close> characters, all of \<open>s\<close> when it is shorter.\<close>

definition py_tail :: "nat \<Rightarrow> string \<Rightarrow> string" where
  "py_tail j s = drop (length s - j) s"

text \<open>\<open>xs[i]\<close>: a negative index counts from the end, an index out of range raises.\<close>

definition py_index :: "'a list \<Rightarrow> int \<Rightarrow> py_error + 'a" where
  "py_index xs i =
     (if 0 \<le> i \<and> i < int (length xs) then Inr (xs ! nat i)
      else if i < 0 \<and> - i \<le> int (length xs) then Inr (xs ! nat (int (length xs) + i))
      else Inl IndexError)"

section \<open>Regular expressions of the shape \<open>(^|\n)(label|...):\<close>\<close>

text \<open>
  server.py builds its patterns by pasting the speaker names into the pattern text.  The
  model reads a name as the literal text of the name, which is what the \<open>re\<close> module does
  for a name without metacharacters; \<open>plain_name\<close> is that side condition.
\<close>

definition plain_name :: "string \<Rightarrow> bool" where
  "plain_name n = (\<forall>c \<in> set n. c \<notin> set (''.^$*+?{}[]|()'' @ [CHR 0x5C]))"

text \<open>
  The alternation \<open>(l1|l2|...):\<close> at the head of \<open>s\<close>: the first label, in order, that is
  followed by a colon there; the result is the length of the match.
\<close>

definition match_labels :: "string list \<Rightarrow> string \<Rightarrow> nat option" where
  "match_labels labs s =
     map_option (\<lambda>l. length l + 1) (List.find (\<lambda>l. prefix (l @ '':'') s) labs)"

text \<open>
  \<open>(^|\n)(l1|...):\<close> at the head of \<open>s\<close>, where \<open>at_start\<close> says that \<open>s\<close> is the whole
  subject (\<open>^\<close> matches at position 0 only): the length of the match.  The branch \<open>^\<close>
  is tried first.
\<close>

definition marker_at :: "string list \<Rightarrow> bool \<Rightarrow> string \<Rightarrow> nat option" where
  "marker_at labs at_start s =
     (case (if at_start then match_labels labs s else None) of
        Some n \<Rightarrow> Some n
      | None \<Rightarrow>
          (case s of
             [] \<Rightarrow> None
           | c # cs \<Rightarrow> if c = nl then map_option Suc (match_labels labs cs) else None))"

lemma match_labels_pos: "match_labels labs s = Some n \<Longrightarrow> 0 < n"
  by (auto simp: match_labels_def)

lemma marker_at_pos: "marker_at labs b s = Some n \<Longrightarrow> 0 < n"
  by (auto simp: marker_at_def dest: match_labels_pos split: option.splits list.splits if_splits)

text \<open>
  \<open>[m.start() for m in re.finditer(pattern, text)]\<close>: \<open>p\<close> is the position of \<open>s\<close> in
  the subject; the search resumes where the last match ended.
\<close>

function finditer_from :: "string list \<Rightarrow> nat \<Rightarrow> string \<Rightarrow> nat list" where
  "finditer_from labs p s =
     (if s = [] then []
      else (case marker_at labs (p = 0) s of
              Some n \<Rightarrow> p # finditer_from labs (p + n) (drop n s)
            | None \<Rightarrow> finditer_from labs (p + 1) (tl s)))"
  by pat_completeness auto
termination
  by (relation "measure (\<lambda>(labs, p, s). length s)") (auto dest: marker_at_pos)

declare finditer_from.simps [simp del]

definition finditer_markers :: "string list \<Rightarrow> string \<Rightarrow> nat list" where
  "finditer_markers labs text = finditer_from labs 0 text"

section \<open>Extensions\<close>

text \<open>
  An extension is a module that may define \<open>input_modifier\<close>, \<open>output_modifier\<close> and
  \<open>bot_prefix_modifier\<close>; \<open>extension_state\<close> is the list of the loaded extensions in
  the order of their priority, each with its enabled flag.
\<close>

datatype ext_typ = Input | Output | Bot_prefix

record extension =
  enabled :: bool
  input_modifier :: "(string \<Rightarrow> string) option"
  output_modifier :: "(string \<Rightarrow> string) option"
  bot_prefix_modifier :: "(string \<Rightarrow> string) option"

definition run_hook :: "(string \<Rightarrow> string) option \<Rightarrow> string \<Rightarrow> string" where
  "run_hook h text = (case h of None \<Rightarrow> text | Some f \<Rightarrow> f text)"

fun apply_extensions :: "extension list \<Rightarrow> string \<Rightarrow> ext_typ \<Rightarrow> string" where
  "apply_extensions [] text typ = text"
| "apply_extensions (ext # exts) text typ =
     apply_extensions exts
       (if enabled ext then
          (case typ of
             Input \<Rightarrow> run_hook (input_modifier ext) text
           | Output \<Rightarrow> run_hook (output_modifier ext) text
           | Bot_prefix \<Rightarrow> run_hook (bot_prefix_modifier ext) text)
        else text) typ"

section \<open>Chat messages\<close>

text \<open>\<open>re.sub(r"\n{3,}", "\n\n", text)\<close>: a run of three or more newlines becomes two.\<close>

function collapse_newlines :: "string \<Rightarrow> string" where
  "collapse_newlines [] = []"
| "collapse_newlines (c # cs) =
     (if c = nl then
        (let run = takeWhile (\<lambda>x. x = nl) cs; rest = dropWhile (\<lambda>x. x = nl) cs
         in (if 2 \<le> length run then [nl, nl] else nl # run) @ collapse_newlines rest)
      else c # collapse_newlines cs)"
  by pat_completeness auto
termination
  by (relation "measure length") (auto simp: le_imp_less_Suc length_dropWhile_le)

definition clean_chat_message :: "string \<Rightarrow> string" where
  "clean_chat_message text =
     strip (collapse_newlines (replace_all [nl] [nl, nl] text))"

section \<open>Reply extraction\<close>

text \<open>
  Lines 459 to 466 of \<open>extract_message_from_reply\<close>: the text after the marker of the
  current speaker with index \<open>len(previous_idx) - 1\<close> in the transcript.
\<close>

definition reply_candidate ::
    "extension list \<Rightarrow> string \<Rightarrow> string \<Rightarrow> string \<Rightarrow> bool \<Rightarrow> py_error + string" where
  "reply_candidate exts question reply current extensions =
     (let previous_idx = finditer_markers [current] question;
          idx = finditer_markers [current] reply
      in case py_index idx (int (length previous_idx) - 1) of
           Inl e \<Rightarrow> Inl e
         | Inr i \<Rightarrow>
             Inr (if extensions
                  then drop (i + 1 + length (apply_extensions exts (current @ '':'') Bot_prefix)) reply
                  else drop (i + 1 + length (current @ '':'')) reply))"

text \<open>\<open>reply.split('\n')[0].strip()\<close>\<close>

definition stop_at_newline :: "string \<Rightarrow> string" where
  "stop_at_newline reply = strip (hd (split_on nl reply))"

text \<open>
  The loop over \<open>j\<close> in \<open>range(1, len(tmp))\<close> that compares \<open>reply[-j:]\<close> with
  \<open>tmp[:j]\<close>.
\<close>

definition tail_is_label_prefix :: "string \<Rightarrow> string \<Rightarrow> bool" where
  "tail_is_label_prefix reply tmp =
     list_ex (\<lambda>j. py_tail j reply = take j tmp) [1 ..< length tmp]"

text \<open>The result is \<open>(reply, next_character_found, substring_found)\<close>.\<close>

definition extract_message_from_reply ::
    "extension list \<Rightarrow> string \<Rightarrow> string \<Rightarrow> string \<Rightarrow> string \<Rightarrow> bool \<Rightarrow> bool
      \<Rightarrow> py_error + (string \<times> bool \<times> bool)" where
  "extract_message_from_reply exts question reply current other check extensions =
     (case reply_candidate exts question reply current extensions of
        Inl e \<Rightarrow> Inl e
      | Inr reply1 \<Rightarrow>
          if check then Inr (stop_at_newline reply1, False, False)
          else
            (let found = find_str (nl # other @ '':'') reply1;
                 reply2 = (case found of None \<Rightarrow> reply1 | Some idx \<Rightarrow> take idx reply1);
                 next_character_found = (found \<noteq> None);
                 reply3 = clean_chat_message reply2;
                 tmp = nl # other @ '':''
             in Inr (reply3, next_character_found, tail_is_label_prefix reply3 tmp)))"

section \<open>Conversation state\<close>

text \<open>
  The global \<open>history\<close>: two lists of turns \<open>[user, bot]\<close>.  The state is passed in and
  returned; an operation that raises returns the state it leaves behind with the
  exception.
\<close>

type_synonym turn = "string \<times> string"




section \<open>The tokenizer and the model\<close>








section \<open>The chat prompt\<close>











section \<open>Generation\<close>







section \<open>The chat wrapper\<close>





section \<open>Models for the examples\<close>




section \<open>Tokenizing a pasted dialogue\<close>

text \<open>
  \<open>(\n|^)(l1|...):\<close> at the head of \<open>s\<close>, the branch \<open>\n\<close> tried first: the length of
  group 1 and the length of the match.
\<close>

definition marker_at_nl_first :: "string list \<Rightarrow> bool \<Rightarrow> string \<Rightarrow> (nat \<times> nat) option" where
  "marker_at_nl_first labs at_start s =
     (case (case s of [] \<Rightarrow> None | c # cs \<Rightarrow> if c = nl then match_labels labs cs else None) of
        Some n \<Rightarrow> Some (1, Suc n)
      | None \<Rightarrow> if at_start then map_option (\<lambda>n. (0, n)) (match_labels labs s) else None)"

lemma marker_at_nl_first_pos: "marker_at_nl_first labs b s = Some (g, n) \<Longrightarrow> 0 < n"
  by (auto simp: marker_at_nl_first_def dest: match_labels_pos
      split: option.splits list.splits if_splits)

text \<open>
  \<open>re.sub('(\n|^)(l1|...):', r'\1' + rep, s)\<close>: each match is replaced by its group 1
  followed by \<open>rep\<close>.
\<close>

function sub_markers :: "string list \<Rightarrow> string \<Rightarrow> bool \<Rightarrow> string \<Rightarrow> string" where
  "sub_markers labs rep at_start s =
     (if s = [] then []
      else (case marker_at_nl_first labs at_start s of
              Some (g, n) \<Rightarrow> take g s @ rep @ sub_markers labs rep False (drop n s)
            | None \<Rightarrow> hd s # sub_markers labs rep False (tl s)))"
  by pat_completeness auto
termination
  by (relation "measure (\<lambda>(labs, rep, b, s). length s)") (auto dest: marker_at_nl_first_pos)

declare sub_markers.simps [simp del]

text \<open>
  The messages: \<open>dialogue[idx[i]:idx[i+1]].strip()\<close> for each pair of neighbours in
  \<open>idx\<close>, then \<open>dialogue[idx[-1]:].strip()\<close>.
\<close>

fun message_slices :: "nat list \<Rightarrow> string \<Rightarrow> string list" where
  "message_slices [] dialogue = []"
| "message_slices [a] dialogue = [strip (drop a dialogue)]"
| "message_slices (a # b # idx) dialogue =
     strip (take (b - a) (drop a dialogue)) # message_slices (b # idx) dialogue"

text \<open>The loop over the messages, with the entry under construction.\<close>

fun pair_messages :: "string \<Rightarrow> string \<Rightarrow> string list \<Rightarrow> turn \<Rightarrow> turn list" where
  "pair_messages name1 name2 [] entry = []"
| "pair_messages name1 name2 (i # messages) entry =
     (if prefix (name1 @ '':'') i
      then pair_messages name1 name2 messages (strip (drop (length (name1 @ '':'')) i), snd entry)
      else if prefix (name2 @ '':'') i
      then (let entry1 = (fst entry, strip (drop (length (name2 @ '':'')) i))
            in (if \<not> (length (fst entry1) = 0 \<and> length (snd entry1) = 0) then [entry1] else [])
               @ pair_messages name1 name2 messages ('''', ''''))
      else pair_messages name1 name2 messages entry)"

definition tokenize_dialogue :: "string \<Rightarrow> string \<Rightarrow> string \<Rightarrow> turn list" where
  "tokenize_dialogue dialogue0 name1 name2 =
     (let dialogue1 = replace_all ''<START>'' '''' dialogue0;
          dialogue2 = replace_all ''<start>'' '''' dialogue1;
          dialogue3 = sub_markers [''Anon'', ''anon''] ''You:'' True dialogue2;
          dialogue = sub_markers [''[CHARACTER]''] (name2 @ '':'') True dialogue3;
          idx = finditer_markers [name1, name2] dialogue
      in if length idx = 0 then []
         else pair_messages name1 name2 (message_slices idx dialogue) ('''', ''''))"

text \<open>The transcript that the round trip rebuilds from the turns.\<close>

definition reconstruct :: "string \<Rightarrow> string \<Rightarrow> turn list \<Rightarrow> string" where
  "reconstruct name1 name2 turns =
     concat (map (\<lambda>t. name1 @ '': '' @ fst t @ [nl] @ name2 @ '': '' @ snd t @ [nl]) turns)"

section \<open>Operations on the history\<close>




text \<open>
  \<open>load_history\<close> reads the file with \<open>json.loads\<close>, which is outside the model: the
  function gets the text of the file and what the parser and the key tests make of it.
  \<open>Data\<close> is an object with the key \<open>data\<close> and maybe \<open>data_visible\<close>, both lists of
  turns; \<open>Chat\<close> an object with a list of strings under \<open>chat\<close> and no \<open>data\<close>;
  \<open>Neither\<close> a value with neither key; \<open>Raises\<close> a text for which the \<open>try\<close> block
  raises, so that the \<open>except\<close> branch tokenizes the text.
\<close>

datatype history_file =
  Data "turn list" "turn list option"
| Chat "string list"
| Neither
| Raises







section \<open>Decoding presets\<close>




















text \<open>
  The positions at which consecutive segments of a text start, the first one at \<open>p\<close>;
  the proofs about \<open>tokenize_dialogue\<close> compare the result of \<open>re.finditer\<close> with it.
\<close>

fun starts :: "nat \<Rightarrow> string list \<Rightarrow> nat list" where
  "starts p [] = []"
| "starts p (s # ss) = p # starts (p + length s) ss"

text \<open>
  The speaker names for which the round trip of \<open>tokenize_dialogue\<close> is stated: not
  empty, no whitespace in front, no colon and no newline, no metacharacter of a regular
  expression, and not one of the names that \<open>tokenize_dialogue\<close> rewrites to \<open>You\<close>.
\<close>

definition usable_name :: "string \<Rightarrow> bool" where
  "usable_name n =
     (n \<noteq> [] \<and> \<not> py_isspace (hd n) \<and> CHR '':'' \<notin> set n \<and> nl \<notin> set n \<and> plain_name n \<and>
      n \<noteq> ''Anon'' \<and> n \<noteq> ''anon'')"

section \<open>Facts about the string functions\<close>

lemma split_on_not_Nil: "split_on sep s \<noteq> []"
  by (induction s) (auto split: list.splits)

lemma hd_split_on: "hd (split_on sep s) = takeWhile (\<lambda>c. c \<noteq> sep) s"
proof (induction s)
  case Nil
  show ?case by simp
next
  case (Cons c cs)
  then show ?case
    using split_on_not_Nil [of sep cs] by (auto split: list.splits)
qed

lemma lstrip_idem: "lstrip (lstrip s) = lstrip s"
  by (simp add: lstrip_def dropWhile_idem)

lemma rstrip_idem: "rstrip (rstrip s) = rstrip s"
  by (simp add: rstrip_def dropWhile_idem)

lemma rstrip_Nil [simp]: "rstrip [] = []"
  by (simp add: rstrip_def)

lemma rstrip_Cons_keep:
  "\<not> (\<forall>x \<in> set (c # cs). py_isspace x) \<Longrightarrow> rstrip (c # cs) = c # rstrip cs"
  by (auto simp: rstrip_def dropWhile_append)

lemma rstrip_all_space: "\<forall>x \<in> set s. py_isspace x \<Longrightarrow> rstrip s = []"
  by (simp add: rstrip_def)

lemma lstrip_rstrip_commute: "lstrip (rstrip s) = rstrip (lstrip s)"
proof (induction s)
  case Nil
  show ?case by (simp add: lstrip_def)
next
  case (Cons c cs)
  show ?case
  proof (cases "\<forall>x \<in> set (c # cs). py_isspace x")
    case True
    have a: "lstrip (c # cs) = []"
      using True by (simp add: lstrip_def)
    have b: "rstrip (c # cs) = []"
      using True by (rule rstrip_all_space)
    show ?thesis
      unfolding a b by (simp add: lstrip_def)
  next
    case False
    then have r: "rstrip (c # cs) = c # rstrip cs"
      by (rule rstrip_Cons_keep)
    show ?thesis
    proof (cases "py_isspace c")
      case True
      with Cons r show ?thesis by (simp add: lstrip_def)
    next
      case False
      with r show ?thesis by (simp add: lstrip_def)
    qed
  qed
qed

lemma strip_idem: "strip (strip s) = strip s"
  by (simp add: strip_def lstrip_rstrip_commute lstrip_idem rstrip_idem)

lemma set_rstrip: "set (rstrip s) \<subseteq> set s"
  unfolding rstrip_def using set_dropWhileD [of _ py_isspace "rev s"] by auto

lemma set_strip: "set (strip s) \<subseteq> set s"
  unfolding strip_def lstrip_def
  using set_rstrip [of "dropWhile py_isspace s"] set_dropWhileD [of _ py_isspace s] by blast

lemma takeWhile_no_sep: "sep \<notin> set s \<Longrightarrow> takeWhile (\<lambda>c. c \<noteq> sep) s = s"
  by (induction s) auto

lemma stop_at_newline_eq: "stop_at_newline s = strip (takeWhile (\<lambda>c. c \<noteq> nl) s)"
  by (simp add: stop_at_newline_def hd_split_on)

lemma nl_notin_stop_at_newline: "nl \<notin> set (stop_at_newline s)"
proof -
  have "nl \<notin> set (takeWhile (\<lambda>c. c \<noteq> nl) s)"
    by (auto dest: set_takeWhileD)
  then show ?thesis
    unfolding stop_at_newline_eq using set_strip by blast
qed

section \<open>Removing the last message\<close>



section \<open>Stop at newline\<close>



section \<open>Idempotence of stop at newline\<close>

text \<open>
  Claim C9.  The stop-at-newline step (cut at the first newline, strip) is idempotent on
  its own output: applied to a reply that it has produced it returns that reply, and so
  does a reply extracted with stop-at-newline active.
\<close>

theorem stop_at_newline_idempotent:
  "stop_at_newline (stop_at_newline reply) = stop_at_newline reply \<and>
   (extract_message_from_reply exts question transcript current other True extensions
      = Inr (r, a, b) \<longrightarrow> stop_at_newline r = r)"
proof -
  have idem: "stop_at_newline (stop_at_newline s) = stop_at_newline s" for s
  proof -
    have tw: "takeWhile (\<lambda>c. c \<noteq> nl) (stop_at_newline s) = stop_at_newline s"
      using nl_notin_stop_at_newline [of s] by (rule takeWhile_no_sep)
    have "stop_at_newline (stop_at_newline s)
        = strip (takeWhile (\<lambda>c. c \<noteq> nl) (stop_at_newline s))"
      by (rule stop_at_newline_eq)
    also have "\<dots> = strip (stop_at_newline s)"
      by (simp only: tw)
    also have "\<dots> = stop_at_newline s"
      by (simp add: stop_at_newline_eq strip_idem)
    finally show ?thesis .
  qed
  show ?thesis
    by (auto simp: idem extract_message_from_reply_def split: sum.splits)
qed

theorem stop_at_newline_idempotent_witness:
  "extract_message_from_reply [] ''Bot:'' ''Bot:  Fine. \<newline>You: ok'' ''Bot'' ''You'' True True
     = Inr (''Fine.'', False, False) \<and>
   stop_at_newline ''Fine.'' = ''Fine.''"
proof -
  have e: "extract_message_from_reply [] ''Bot:'' ''Bot:  Fine. \<newline>You: ok'' ''Bot'' ''You'' True True
     = Inr (''Fine.'', False, False)"
    by code_simp
  from stop_at_newline_idempotent
      [where exts = "[]" and question = "''Bot:''" and transcript = "''Bot:  Fine. \<newline>You: ok''"
        and current = "''Bot''" and other = "''You''" and extensions = True
        and r = "''Fine.''" and a = False and b = False]
    e
  show ?thesis by simp
qed

section \<open>Streaming generation\<close>







section \<open>The budget of the chat prompt\<close>





section \<open>The index lookup of reply extraction\<close>











section \<open>The partial label at the end of a reply\<close>

lemma replace_newlines_concat:
  "replace_all [nl] [nl, nl] s = concat (map (\<lambda>c. if c = nl then [nl, nl] else [c]) s)"
  by (induction s) auto

lemma replace_newlines_append:
  "replace_all [nl] [nl, nl] (a @ b) = replace_all [nl] [nl, nl] a @ replace_all [nl] [nl, nl] b"
  by (simp add: replace_newlines_concat)

lemma replace_newlines_none: "nl \<notin> set p \<Longrightarrow> replace_all [nl] [nl, nl] p = p"
  by (induction p) auto

lemma set_replace_newlines: "set (replace_all [nl] [nl, nl] s) = set s"
  by (induction s) auto

lemma collapse_newlines_none: "nl \<notin> set p \<Longrightarrow> collapse_newlines p = p"
  by (induction p) auto

lemma collapse_newlines_all_nl:
  assumes "\<forall>x \<in> set cs. x = nl" and "c0 \<noteq> nl"
  shows "collapse_newlines (nl # cs @ nl # nl # c0 # p0) = nl # nl # collapse_newlines (c0 # p0)"
proof -
  have tw: "takeWhile (\<lambda>x. x = nl) (cs @ nl # nl # c0 # p0) = cs @ [nl, nl]"
    using assms by (simp add: takeWhile_append2)
  have dw: "dropWhile (\<lambda>x. x = nl) (cs @ nl # nl # c0 # p0) = c0 # p0"
    using assms by (simp add: dropWhile_append2)
  have "collapse_newlines (nl # cs @ nl # nl # c0 # p0) =
      (let run = takeWhile (\<lambda>x. x = nl) (cs @ nl # nl # c0 # p0);
           rest = dropWhile (\<lambda>x. x = nl) (cs @ nl # nl # c0 # p0)
       in (if 2 \<le> length run then [nl, nl] else nl # run) @ collapse_newlines rest)"
    by (simp only: collapse_newlines.simps(2) simp_thms if_True)
  also have "\<dots> = nl # nl # collapse_newlines (c0 # p0)"
    unfolding Let_def tw dw by simp
  finally show ?thesis .
qed

lemma collapse_newlines_run:
  assumes "x \<in> set cs" and "x \<noteq> nl"
  shows "collapse_newlines (nl # cs @ t) =
     (if 2 \<le> length (takeWhile (\<lambda>x. x = nl) cs) then [nl, nl]
      else nl # takeWhile (\<lambda>x. x = nl) cs)
     @ collapse_newlines (dropWhile (\<lambda>x. x = nl) cs @ t)"
proof -
  have tw: "takeWhile (\<lambda>x. x = nl) (cs @ t) = takeWhile (\<lambda>x. x = nl) cs"
    using assms by (simp add: takeWhile_append1)
  have dw: "dropWhile (\<lambda>x. x = nl) (cs @ t) = dropWhile (\<lambda>x. x = nl) cs @ t"
    using assms by (simp add: dropWhile_append1)
  have "collapse_newlines (nl # cs @ t) =
      (let run = takeWhile (\<lambda>x. x = nl) (cs @ t);
           rest = dropWhile (\<lambda>x. x = nl) (cs @ t)
       in (if 2 \<le> length run then [nl, nl] else nl # run) @ collapse_newlines rest)"
    by (simp only: collapse_newlines.simps(2) simp_thms if_True)
  then show ?thesis
    unfolding Let_def tw dw .
qed

lemma collapse_newlines_other:
  "c \<noteq> nl \<Longrightarrow> collapse_newlines (c # cs) = c # collapse_newlines cs"
  by (simp only: collapse_newlines.simps if_False)

lemma collapse_newlines_before_text:
  assumes "c0 \<noteq> nl"
  shows "\<exists>B. collapse_newlines (xs @ nl # nl # c0 # p0) = B @ nl # nl # collapse_newlines (c0 # p0) \<and>
           (\<forall>c \<in> set xs. c \<noteq> nl \<longrightarrow> c \<in> set B)"
proof (induction xs rule: length_induct)
  case (1 xs)
  note IH = "1.IH" [rule_format]
  show ?case
  proof (cases xs)
    case Nil
    have "collapse_newlines (nl # [] @ nl # nl # c0 # p0) = nl # nl # collapse_newlines (c0 # p0)"
      using assms by (intro collapse_newlines_all_nl) simp_all
    then have "collapse_newlines (xs @ nl # nl # c0 # p0) = [] @ nl # nl # collapse_newlines (c0 # p0)"
      using Nil collapse_newlines_all_nl [of "[]" c0 p0] assms by simp
    moreover have "\<forall>c \<in> set xs. c \<noteq> nl \<longrightarrow> c \<in> set []"
      using Nil by simp
    ultimately show ?thesis by blast
  next
    case (Cons c cs)
    show ?thesis
    proof (cases "c = nl")
      case False
      have "length cs < length xs" using Cons by simp
      from IH [OF this] obtain B where
        B: "collapse_newlines (cs @ nl # nl # c0 # p0) = B @ nl # nl # collapse_newlines (c0 # p0)"
          "\<forall>c \<in> set cs. c \<noteq> nl \<longrightarrow> c \<in> set B"
        by blast
      have "collapse_newlines (xs @ nl # nl # c0 # p0) = c # collapse_newlines (cs @ nl # nl # c0 # p0)"
        using collapse_newlines_other [OF False] Cons by simp
      then have "collapse_newlines (xs @ nl # nl # c0 # p0) = (c # B) @ nl # nl # collapse_newlines (c0 # p0)"
        by (simp only: B(1) append_Cons)
      moreover have "\<forall>c' \<in> set xs. c' \<noteq> nl \<longrightarrow> c' \<in> set (c # B)"
        using B(2) Cons by auto
      ultimately show ?thesis by blast
    next
      case True
      show ?thesis
      proof (cases "\<forall>x \<in> set cs. x = nl")
        case all: True
        have "collapse_newlines (nl # cs @ nl # nl # c0 # p0) = nl # nl # collapse_newlines (c0 # p0)"
          using all assms by (rule collapse_newlines_all_nl)
        then have "collapse_newlines (xs @ nl # nl # c0 # p0) = [] @ nl # nl # collapse_newlines (c0 # p0)"
          using True Cons by simp
        moreover have "\<forall>c \<in> set xs. c \<noteq> nl \<longrightarrow> c \<in> set []"
          using all True Cons by auto
        ultimately show ?thesis by blast
      next
        case notall: False
        define run where "run = takeWhile (\<lambda>x. x = nl) cs"
        define rest where "rest = dropWhile (\<lambda>x. x = nl) cs"
        define pre where "pre = (if 2 \<le> length run then [nl, nl] else nl # run)"
        from notall obtain x where x: "x \<in> set cs" "x \<noteq> nl" by blast
        have step: "collapse_newlines (nl # cs @ nl # nl # c0 # p0) =
            pre @ collapse_newlines (rest @ nl # nl # c0 # p0)"
          unfolding pre_def run_def rest_def using x by (rule collapse_newlines_run)
        have "length rest \<le> length cs"
          unfolding rest_def by (rule length_dropWhile_le)
        then have "length rest < length xs" using Cons by simp
        from IH [OF this] obtain B where
          B: "collapse_newlines (rest @ nl # nl # c0 # p0) = B @ nl # nl # collapse_newlines (c0 # p0)"
            "\<forall>c \<in> set rest. c \<noteq> nl \<longrightarrow> c \<in> set B"
          by blast
        have "collapse_newlines (xs @ nl # nl # c0 # p0) = pre @ collapse_newlines (rest @ nl # nl # c0 # p0)"
          using step True Cons by simp
        then have "collapse_newlines (xs @ nl # nl # c0 # p0) = (pre @ B) @ nl # nl # collapse_newlines (c0 # p0)"
          by (simp only: B(1) append_assoc)
        moreover have "\<forall>c' \<in> set xs. c' \<noteq> nl \<longrightarrow> c' \<in> set (pre @ B)"
        proof (intro ballI impI)
          fix c' assume c': "c' \<in> set xs" "c' \<noteq> nl"
          with True Cons have "c' \<in> set cs" by auto
          moreover have "cs = run @ rest" by (simp add: run_def rest_def)
          ultimately have "c' \<in> set run \<or> c' \<in> set rest" by (metis Un_iff set_append)
          moreover have "c' \<notin> set run"
            using c'(2) set_takeWhileD [of c' "\<lambda>x. x = nl" cs] by (auto simp: run_def)
          ultimately show "c' \<in> set (pre @ B)" using B(2) c'(2) by auto
        qed
        ultimately show ?thesis by blast
      qed
    qed
  qed
qed

lemma lstrip_append_keep:
  "\<exists>c \<in> set B. \<not> py_isspace c \<Longrightarrow> lstrip (B @ t) = lstrip B @ t"
  unfolding lstrip_def by (auto simp: dropWhile_append1)

lemma rstrip_append_keep:
  assumes "\<exists>c \<in> set v. \<not> py_isspace c"
  shows "rstrip (u @ v) = u @ rstrip v"
proof -
  from assms obtain c where "c \<in> set (rev v)" "\<not> py_isspace c" by auto
  then have "dropWhile py_isspace (rev v @ rev u) = dropWhile py_isspace (rev v) @ rev u"
    by (rule dropWhile_append1)
  then show ?thesis by (simp add: rstrip_def)
qed

lemma prefix_rstrip: "prefix (rstrip p) p"
proof -
  have "suffix (dropWhile py_isspace (rev p)) (rev p)"
    by (rule suffix_dropWhile)
  then have "prefix (rev (dropWhile py_isspace (rev p))) (rev (rev p))"
    by (simp only: suffix_to_prefix)
  then show ?thesis by (simp add: rstrip_def)
qed

lemma rstrip_not_Nil: "p \<noteq> [] \<Longrightarrow> \<not> py_isspace (hd p) \<Longrightarrow> rstrip p \<noteq> []"
  by (cases p) (simp_all add: rstrip_Cons_keep)

lemma strip_around_paragraph:
  assumes "\<exists>c \<in> set B. \<not> py_isspace c" and "p \<noteq> []" and "\<not> py_isspace (hd p)"
  shows "strip (B @ nl # nl # p) = lstrip B @ nl # nl # rstrip p"
proof -
  from assms(2,3) have pp: "\<exists>c \<in> set p. \<not> py_isspace c"
    by (cases p) auto
  have "strip (B @ nl # nl # p) = rstrip (lstrip B @ nl # nl # p)"
    by (simp add: strip_def lstrip_append_keep [OF assms(1)])
  also have "\<dots> = rstrip ((lstrip B @ [nl, nl]) @ p)"
    by simp
  also have "\<dots> = (lstrip B @ [nl, nl]) @ rstrip p"
    using pp by (rule rstrip_append_keep)
  finally show ?thesis by simp
qed

lemma clean_chat_message_tail:
  assumes "\<exists>c \<in> set pre. \<not> py_isspace c" and "p \<noteq> []" and "\<not> py_isspace (hd p)"
    and "nl \<notin> set p"
  shows "\<exists>X. clean_chat_message (pre @ nl # p) = X @ nl # rstrip p"
proof -
  from assms(2) obtain c0 p0 where p: "p = c0 # p0" by (cases p) auto
  with assms(4) have c0: "c0 \<noteq> nl" by auto
  have d: "replace_all [nl] [nl, nl] (pre @ nl # p)
      = replace_all [nl] [nl, nl] pre @ nl # nl # p"
    using replace_newlines_append [of pre "nl # p"] replace_newlines_none [OF assms(4)] by simp
  from collapse_newlines_before_text [OF c0, of "replace_all [nl] [nl, nl] pre" p0]
  obtain B where
    B: "collapse_newlines (replace_all [nl] [nl, nl] pre @ nl # nl # c0 # p0)
          = B @ nl # nl # collapse_newlines (c0 # p0)"
      "\<forall>c \<in> set (replace_all [nl] [nl, nl] pre). c \<noteq> nl \<longrightarrow> c \<in> set B"
    by blast
  from assms(1) obtain c where c: "c \<in> set pre" "\<not> py_isspace c" by blast
  then have "c \<noteq> nl" by (auto simp: py_isspace_def)
  with c B(2) have "c \<in> set B" by (simp add: set_replace_newlines)
  with c have Bc: "\<exists>c \<in> set B. \<not> py_isspace c" by blast
  have "collapse_newlines (c0 # p0) = p"
    using collapse_newlines_none [OF assms(4)] p by simp
  with B(1) d p have "clean_chat_message (pre @ nl # p) = strip (B @ nl # nl # p)"
    by (simp add: clean_chat_message_def)
  also have "\<dots> = lstrip B @ nl # nl # rstrip p"
    using Bc assms(2,3) by (rule strip_around_paragraph)
  finally have "clean_chat_message (pre @ nl # p) = (lstrip B @ [nl]) @ nl # rstrip p"
    by simp
  then show ?thesis by blast
qed

lemma tail_is_label_prefix_intro:
  assumes "q \<noteq> []" and "prefix q (other @ '':'')" and "q \<noteq> other @ '':''"
  shows "tail_is_label_prefix (X @ nl # q) (nl # other @ '':'')"
proof -
  from assms(2) obtain r where t: "other @ '':'' = q @ r"
    by (auto simp: prefix_def)
  with assms(3) have r: "r \<noteq> []" by auto
  from t have "length (other @ '':'') = length (q @ r)"
    by (rule arg_cong)
  with r have len: "length q < length (other @ '':'')"
    by (cases r) simp_all
  have tk: "take (length q) (other @ '':'') = q"
    unfolding t by simp
  have "1 \<le> Suc (length q) \<and> Suc (length q) < length (nl # other @ '':'')"
    using len by simp
  then have j: "Suc (length q) \<in> set [1 ..< length (nl # other @ '':'')]"
    by (simp only: set_upt atLeastLessThan_iff)
  have "py_tail (Suc (length q)) (X @ nl # q) = nl # q"
    by (simp add: py_tail_def)
  moreover have "take (Suc (length q)) (nl # other @ '':'') = nl # q"
    using tk by simp
  ultimately have "py_tail (Suc (length q)) (X @ nl # q) = take (Suc (length q)) (nl # other @ '':'')"
    by simp
  with j show ?thesis
    unfolding tail_is_label_prefix_def list_ex_iff by blast
qed

text \<open>
  Claim C3 (as amended).  With stop-at-newline off, a raw candidate that ends with a
  newline followed by a non-empty prefix \<open>p\<close> of \<open>other:\<close>, shorter than \<open>other:\<close>
  and starting with a character that is not whitespace, that has a character other than
  whitespace before that newline and does not contain the whole marker \<open>\nother:\<close>, is
  extracted with \<open>substring_found\<close> true.  The test runs on the reply after paragraph
  normalisation, which strips it: a tail that is only the newline does not raise the
  flag.  For \<open>other = You\<close> and a candidate that ends with \<open>great!\nYo\<close> the flag is
  true.
\<close>

theorem partial_label_flag:
  "reply_candidate exts question reply current extensions = Inr (pre @ nl # p) \<and>
   p \<noteq> [] \<and> prefix p (other @ '':'') \<and> p \<noteq> other @ '':'' \<and>
   \<not> py_isspace (hd p) \<and> nl \<notin> set p \<and> (\<exists>c \<in> set pre. \<not> py_isspace c) \<and>
   find_str (nl # other @ '':'') (pre @ nl # p) = None \<longrightarrow>
   extract_message_from_reply exts question reply current other False extensions
     = Inr (clean_chat_message (pre @ nl # p), False, True)"
proof (intro impI, elim conjE)
  assume cand: "reply_candidate exts question reply current extensions = Inr (pre @ nl # p)"
    and p: "p \<noteq> []" "prefix p (other @ '':'')" "p \<noteq> other @ '':''"
    and sp: "\<not> py_isspace (hd p)" and nonl: "nl \<notin> set p"
    and pre: "\<exists>c \<in> set pre. \<not> py_isspace c"
    and nf: "find_str (nl # other @ '':'') (pre @ nl # p) = None"
  from clean_chat_message_tail [OF pre p(1) sp nonl] obtain X where
    X: "clean_chat_message (pre @ nl # p) = X @ nl # rstrip p"
    by blast
  have q1: "rstrip p \<noteq> []"
    using p(1) sp by (rule rstrip_not_Nil)
  have q2: "prefix (rstrip p) (other @ '':'')"
    using prefix_rstrip [of p] p(2) by (rule prefix_order.trans)
  have q3: "rstrip p \<noteq> other @ '':''"
  proof
    assume "rstrip p = other @ '':''"
    with prefix_rstrip [of p] have "prefix (other @ '':'') p" by simp
    with p(2) have "p = other @ '':''" by (rule prefix_order.antisym)
    with p(3) show False by simp
  qed
  have "tail_is_label_prefix (X @ nl # rstrip p) (nl # other @ '':'')"
    using q1 q2 q3 by (rule tail_is_label_prefix_intro)
  then have flag: "tail_is_label_prefix (clean_chat_message (pre @ nl # p)) (nl # other @ '':'')"
    by (simp only: X)
  show "extract_message_from_reply exts question reply current other False extensions
     = Inr (clean_chat_message (pre @ nl # p), False, True)"
    using flag nf cand by (simp add: extract_message_from_reply_def Let_def)
qed

theorem partial_label_flag_witness:
  "reply_candidate [] ''Chat.\<newline>You: hi\<newline>Bot:'' ''Chat.\<newline>You: hi\<newline>Bot: That is great!\<newline>Yo''
     ''Bot'' True = Inr ('' That is great!'' @ nl # ''Yo'') \<and>
   clean_chat_message ('' That is great!'' @ nl # ''Yo'') = ''That is great!\<newline>\<newline>Yo'' \<and>
   extract_message_from_reply [] ''Chat.\<newline>You: hi\<newline>Bot:''
       ''Chat.\<newline>You: hi\<newline>Bot: That is great!\<newline>Yo'' ''Bot'' ''You'' False True
     = Inr (''That is great!\<newline>\<newline>Yo'', False, True)"
proof -
  have c: "reply_candidate [] ''Chat.\<newline>You: hi\<newline>Bot:''
      ''Chat.\<newline>You: hi\<newline>Bot: That is great!\<newline>Yo'' ''Bot'' True
      = Inr ('' That is great!'' @ nl # ''Yo'')"
    by code_simp
  have h1: "''Yo'' \<noteq> [] \<and> prefix ''Yo'' (''You'' @ '':'') \<and> ''Yo'' \<noteq> ''You'' @ '':'' \<and>
      \<not> py_isspace (hd ''Yo'') \<and> nl \<notin> set ''Yo''"
    by (simp add: py_isspace_def)
  have h2: "\<exists>c \<in> set '' That is great!''. \<not> py_isspace c"
    by (simp add: py_isspace_def)
  have h3: "find_str (nl # ''You'' @ '':'') ('' That is great!'' @ nl # ''Yo'') = None"
    by code_simp
  have cl: "clean_chat_message ('' That is great!'' @ nl # ''Yo'') = ''That is great!\<newline>\<newline>Yo''"
    by code_simp
  from partial_label_flag
      [where exts = "[]" and question = "''Chat.\<newline>You: hi\<newline>Bot:''"
        and reply = "''Chat.\<newline>You: hi\<newline>Bot: That is great!\<newline>Yo''"
        and current = "''Bot''" and extensions = True and pre = "'' That is great!''"
        and p = "''Yo''" and other = "''You''"]
    c h1 h2 h3
  have "extract_message_from_reply [] ''Chat.\<newline>You: hi\<newline>Bot:''
       ''Chat.\<newline>You: hi\<newline>Bot: That is great!\<newline>Yo'' ''Bot'' ''You'' False True
     = Inr (clean_chat_message ('' That is great!'' @ nl # ''Yo''), False, True)"
    by blast
  with c cl show ?thesis by simp
qed

theorem partial_label_flag_counterexample:
  "prefix [nl] (nl # ''You'' @ '':'') \<and> [nl] \<noteq> nl # ''You'' @ '':'' \<and>
   reply_candidate [] ''Chat.\<newline>You: hi\<newline>Bot:'' ''Chat.\<newline>You: hi\<newline>Bot: great!\<newline>''
     ''Bot'' True = Inr ('' great!'' @ [nl]) \<and>
   extract_message_from_reply [] ''Chat.\<newline>You: hi\<newline>Bot:''
       ''Chat.\<newline>You: hi\<newline>Bot: great!\<newline>'' ''Bot'' ''You'' False True
     = Inr (''great!'', False, False) \<and>
   reply_candidate [] ''Chat.\<newline>You: hi\<newline>Bot:'' ''Chat.\<newline>You: hi\<newline>Bot:\<newline>Yo''
     ''Bot'' True = Inr (nl # ''Yo'') \<and>
   extract_message_from_reply [] ''Chat.\<newline>You: hi\<newline>Bot:''
       ''Chat.\<newline>You: hi\<newline>Bot:\<newline>Yo'' ''Bot'' ''You'' False True
     = Inr (''Yo'', False, False)"
  by code_simp

section \<open>The lengths of the two histories\<close>














section \<open>The keys of a preset\<close>











section \<open>Tokenizing a rendered transcript\<close>

lemma replace_all_absent:
  "find_str pat s = None \<Longrightarrow> replace_all pat rep s = s"
  by (induction s) (auto split: if_splits)

lemma match_labels_Nil [simp]: "match_labels labs [] = None"
  by (induction labs) (auto simp: match_labels_def)

lemma marker_at_not_nl:
  "c \<noteq> nl \<Longrightarrow> marker_at labs False (c # cs) = None"
  by (simp add: marker_at_def)

lemma marker_at_nl:
  "marker_at labs False (nl # cs) = map_option Suc (match_labels labs cs)"
  by (simp add: marker_at_def split: option.splits)

lemma marker_at_start:
  "match_labels labs s = Some n \<Longrightarrow> marker_at labs True s = Some n"
  by (simp add: marker_at_def)

lemma finditer_from_Nil [simp]: "finditer_from labs p [] = []"
  by (simp add: finditer_from.simps)

lemma finditer_mid:
  "nl \<notin> set u \<Longrightarrow> 0 < p \<Longrightarrow>
   finditer_from labs p (u @ rest) = finditer_from labs (p + length u) rest"
proof (induction u arbitrary: p)
  case Nil
  show ?case by simp
next
  case (Cons c u)
  then have c: "c \<noteq> nl" and u: "nl \<notin> set u" by auto
  have "finditer_from labs p ((c # u) @ rest) = finditer_from labs (p + 1) (u @ rest)"
    using Cons.prems(2) marker_at_not_nl [OF c, of labs "u @ rest"]
    by (subst finditer_from.simps) simp
  also have "\<dots> = finditer_from labs (p + 1 + length u) rest"
    using u by (intro Cons.IH) simp_all
  finally show ?case by simp
qed

lemma finditer_line_end: "0 < p \<Longrightarrow> finditer_from labs p [nl] = []"
  by (subst finditer_from.simps) (simp add: marker_at_nl)

lemma finditer_at_newline:
  assumes "match_labels labs (L @ rest) = Some n" and "n \<le> length L" and "nl \<notin> set L"
    and "0 < p"
  shows "finditer_from labs p (nl # L @ rest) = p # finditer_from labs (p + Suc (length L)) rest"
proof -
  have m: "marker_at labs (p = 0) (nl # L @ rest) = Some (Suc n)"
    using assms(1,4) by (simp add: marker_at_nl)
  have "finditer_from labs p (nl # L @ rest) = p # finditer_from labs (p + Suc n) (drop n L @ rest)"
    using assms(2) by (subst finditer_from.simps) (simp add: m)
  also have "finditer_from labs (p + Suc n) (drop n L @ rest)
      = finditer_from labs (p + Suc n + length (drop n L)) rest"
    using assms(3) by (intro finditer_mid) (auto dest: in_set_dropD)
  finally show ?thesis using assms(2) by simp
qed

lemma finditer_at_start:
  assumes "match_labels labs (L @ rest) = Some n" and "n \<le> length L" and "nl \<notin> set L"
  shows "finditer_from labs 0 (L @ rest) = 0 # finditer_from labs (length L) rest"
proof -
  from assms(1) have n: "0 < n" by (rule match_labels_pos)
  with assms(2) have ne: "L @ rest \<noteq> []" by auto
  have m: "marker_at labs (0 = (0::nat)) (L @ rest) = Some n"
    using assms(1) by (simp add: marker_at_start)
  have "finditer_from labs 0 (L @ rest) = 0 # finditer_from labs n (drop n L @ rest)"
    using assms(2) ne m by (subst finditer_from.simps) simp
  also have "finditer_from labs n (drop n L @ rest)
      = finditer_from labs (n + length (drop n L)) rest"
    using assms(3) n by (intro finditer_mid) (auto dest: in_set_dropD)
  finally show ?thesis using assms(2) by simp
qed

lemma finditer_tail_lines:
  assumes "\<forall>L \<in> set ls. nl \<notin> set L \<and>
      (\<forall>t. \<exists>n. match_labels labs (L @ t) = Some n \<and> n \<le> length L)"
    and "0 < p"
  shows "finditer_from labs p (concat (map (\<lambda>L. nl # L) ls) @ [nl])
     = starts p (map (\<lambda>L. nl # L) ls)"
  using assms
proof (induction ls arbitrary: p)
  case Nil
  then show ?case by (simp add: finditer_line_end)
next
  case (Cons L ls)
  define rest where "rest = concat (map (\<lambda>L. nl # L) ls) @ [nl]"
  from Cons.prems(1) obtain n where n: "match_labels labs (L @ rest) = Some n" "n \<le> length L"
    and L: "nl \<notin> set L"
    by (metis list.set_intros(1))
  have "finditer_from labs p (nl # L @ rest) = p # finditer_from labs (p + Suc (length L)) rest"
    using n L Cons.prems(2) by (rule finditer_at_newline)
  moreover have "finditer_from labs (p + Suc (length L)) rest
      = starts (p + Suc (length L)) (map (\<lambda>L. nl # L) ls)"
    unfolding rest_def using Cons.prems(1) by (intro Cons.IH) simp_all
  ultimately show ?case by (simp add: rest_def)
qed

lemma message_slices_starts:
  "segs \<noteq> [] \<Longrightarrow> length pre = p \<Longrightarrow>
   message_slices (starts p segs) (pre @ concat segs @ t)
     = map strip (butlast segs) @ [strip (last segs @ t)]"
proof (induction segs arbitrary: pre p)
  case Nil
  then show ?case by simp
next
  case (Cons s ss)
  show ?case
  proof (cases ss)
    case Nil
    with Cons.prems show ?thesis by simp
  next
    case (Cons s' ss')
    have "message_slices (starts p (s # ss)) (pre @ concat (s # ss) @ t)
        = strip (take (length s) (drop p (pre @ concat (s # ss) @ t)))
          # message_slices (starts (p + length s) ss) (pre @ concat (s # ss) @ t)"
      using Cons by simp
    moreover have "take (length s) (drop p (pre @ concat (s # ss) @ t)) = s"
      using Cons.prems(2) by simp
    moreover have "message_slices (starts (p + length s) ss) ((pre @ s) @ concat ss @ t)
        = map strip (butlast ss) @ [strip (last ss @ t)]"
      using Cons Cons.prems(2) by (intro Cons.IH) simp_all
    ultimately show ?thesis using Cons by simp
  qed
qed

lemma sub_markers_Nil [simp]: "sub_markers labs rep b [] = []"
  by (simp add: sub_markers.simps)

lemma marker_at_nl_first_not_nl:
  "c \<noteq> nl \<Longrightarrow> marker_at_nl_first labs False (c # cs) = None"
  by (simp add: marker_at_nl_first_def)

lemma sub_markers_mid:
  "nl \<notin> set u \<Longrightarrow> sub_markers labs rep False (u @ rest) = u @ sub_markers labs rep False rest"
proof (induction u)
  case Nil
  show ?case by simp
next
  case (Cons c u)
  then have c: "c \<noteq> nl" by auto
  have "sub_markers labs rep False ((c # u) @ rest) = c # sub_markers labs rep False (u @ rest)"
    using marker_at_nl_first_not_nl [OF c, of labs "u @ rest"]
    by (subst sub_markers.simps) simp
  with Cons show ?case by simp
qed

lemma sub_markers_at_newline:
  assumes "match_labels labs rest = None"
  shows "sub_markers labs rep False (nl # rest) = nl # sub_markers labs rep False rest"
proof -
  have "marker_at_nl_first labs False (nl # rest) = None"
    using assms by (simp add: marker_at_nl_first_def)
  then show ?thesis
    by (subst sub_markers.simps) simp
qed

lemma sub_markers_at_start:
  assumes "match_labels labs (c # rest) = None" and "c \<noteq> nl"
  shows "sub_markers labs rep True (c # rest) = c # sub_markers labs rep False rest"
proof -
  have "marker_at_nl_first labs True (c # rest) = None"
    using assms by (simp add: marker_at_nl_first_def)
  then show ?thesis
    by (subst sub_markers.simps) simp
qed

lemma sub_markers_tail_lines:
  assumes "\<forall>L \<in> set ls. nl \<notin> set L \<and> (\<forall>t. match_labels labs (L @ t) = None)"
  shows "sub_markers labs rep False (concat (map (\<lambda>L. nl # L) ls) @ [nl])
     = concat (map (\<lambda>L. nl # L) ls) @ [nl]"
  using assms
proof (induction ls)
  case Nil
  show ?case by (simp add: sub_markers_at_newline)
next
  case (Cons L ls)
  define rest where "rest = concat (map (\<lambda>L. nl # L) ls) @ [nl]"
  from Cons.prems have L: "nl \<notin> set L" and m: "match_labels labs (L @ rest) = None"
    by simp_all
  have "sub_markers labs rep False (nl # L @ rest) = nl # sub_markers labs rep False (L @ rest)"
    using m by (rule sub_markers_at_newline)
  also have "sub_markers labs rep False (L @ rest) = L @ sub_markers labs rep False rest"
    using L by (rule sub_markers_mid)
  also have "sub_markers labs rep False rest = rest"
    unfolding rest_def using Cons.prems by (intro Cons.IH) simp
  finally show ?case by (simp add: rest_def)
qed

lemma sub_markers_lines:
  assumes "L \<noteq> []" and "nl \<notin> set L" and "\<forall>t. match_labels labs (L @ t) = None"
    and "\<forall>L \<in> set ls. nl \<notin> set L \<and> (\<forall>t. match_labels labs (L @ t) = None)"
  shows "sub_markers labs rep True (L @ concat (map (\<lambda>L. nl # L) ls) @ [nl])
     = L @ concat (map (\<lambda>L. nl # L) ls) @ [nl]"
proof -
  define rest where "rest = concat (map (\<lambda>L. nl # L) ls) @ [nl]"
  from assms(1) obtain c u where L: "L = c # u" by (cases L) auto
  with assms(2) have c: "c \<noteq> nl" and u: "nl \<notin> set u" by auto
  from assms(3) L have m: "match_labels labs (c # u @ rest) = None"
    by (metis append_Cons)
  have "sub_markers labs rep True (c # u @ rest) = c # sub_markers labs rep False (u @ rest)"
    using m c by (rule sub_markers_at_start)
  also have "sub_markers labs rep False (u @ rest) = u @ sub_markers labs rep False rest"
    using u by (rule sub_markers_mid)
  also have "sub_markers labs rep False rest = rest"
    unfolding rest_def using assms(4) by (rule sub_markers_tail_lines)
  finally show ?thesis by (simp add: L rest_def)
qed

lemma concat_lines:
  "concat (map (\<lambda>L. L @ [nl]) (L # ls)) = L @ concat (map (\<lambda>L. nl # L) ls) @ [nl]"
  by (induction ls arbitrary: L) simp_all

lemma takeWhile_upto_sep:
  "sep \<notin> set b \<Longrightarrow> takeWhile (\<lambda>c. c \<noteq> sep) (b @ sep # t) = b"
  by (induction b) auto

lemma label_colon_prefix:
  assumes "CHR '':'' \<notin> set a" and "CHR '':'' \<notin> set b"
  shows "prefix (a @ '':'') (b @ CHR '':'' # t) \<longleftrightarrow> a = b"
proof
  assume "a = b"
  then show "prefix (a @ '':'') (b @ CHR '':'' # t)" by simp
next
  assume "prefix (a @ '':'') (b @ CHR '':'' # t)"
  then obtain r where e: "b @ CHR '':'' # t = a @ CHR '':'' # r"
    by (auto simp: prefix_def)
  have "takeWhile (\<lambda>c. c \<noteq> CHR '':'') (b @ CHR '':'' # t) = b"
    using assms(2) by (rule takeWhile_upto_sep)
  moreover have "takeWhile (\<lambda>c. c \<noteq> CHR '':'') (a @ CHR '':'' # r) = a"
    using assms(1) by (rule takeWhile_upto_sep)
  ultimately show "a = b" using e by simp
qed

lemma py_isspace_nl [simp]: "py_isspace nl"
  by (simp add: py_isspace_def)

lemma py_isspace_blank [simp]: "py_isspace (CHR '' '')"
  by (simp add: py_isspace_def)

lemma not_py_isspace_colon [simp]: "\<not> py_isspace (CHR '':'')"
  by (simp add: py_isspace_def)

lemma strip_Cons_space: "py_isspace c \<Longrightarrow> strip (c # s) = strip s"
  by (simp add: strip_def lstrip_def)

lemma rstrip_snoc_space: "py_isspace c \<Longrightarrow> rstrip (s @ [c]) = rstrip s"
  by (simp add: rstrip_def)

lemma strip_snoc_space:
  assumes "py_isspace c"
  shows "strip (s @ [c]) = strip s"
proof (cases "\<forall>x \<in> set s. py_isspace x")
  case True
  with assms have "lstrip (s @ [c]) = []" "lstrip s = []"
    by (simp_all add: lstrip_def)
  then show ?thesis by (simp add: strip_def)
next
  case False
  then have "lstrip (s @ [c]) = lstrip s @ [c]"
    by (intro lstrip_append_keep) blast
  with assms show ?thesis
    by (simp add: strip_def rstrip_snoc_space)
qed

lemma rstrip_after_nonspace:
  assumes "\<not> py_isspace c"
  shows "rstrip (u @ c # t) = u @ c # rstrip t"
proof -
  have "rstrip (u @ c # t) = u @ rstrip (c # t)"
    using assms by (intro rstrip_append_keep) auto
  also have "rstrip (c # t) = c # rstrip t"
    using assms by (intro rstrip_Cons_keep) auto
  finally show ?thesis .
qed

lemma strip_rstrip: "strip (rstrip t) = strip t"
  by (simp add: strip_def lstrip_rstrip_commute rstrip_idem)

lemma strip_label_line:
  assumes "lab \<noteq> []" and "\<not> py_isspace (hd lab)"
  shows "strip (lab @ CHR '':'' # t) = lab @ CHR '':'' # rstrip t"
proof -
  from assms obtain c u where lab: "lab = c # u" and c: "\<not> py_isspace c"
    by (cases lab) auto
  then have "lstrip (lab @ CHR '':'' # t) = lab @ CHR '':'' # t"
    by (simp add: lstrip_def)
  then show ?thesis
    by (simp add: strip_def rstrip_after_nonspace)
qed

lemma pair_messages_rendered:
  assumes "name1 \<noteq> name2" and "CHR '':'' \<notin> set name1" and "CHR '':'' \<notin> set name2"
    and "\<forall>t \<in> set pairs. \<not> (strip (fst t) = [] \<and> strip (snd t) = [])"
  shows "pair_messages name1 name2
      (concat (map (\<lambda>t. [name1 @ CHR '':'' # rstrip (CHR '' '' # fst t),
                          name2 @ CHR '':'' # rstrip (CHR '' '' # snd t)]) pairs)) ('''', '''')
     = map (\<lambda>t. (strip (fst t), strip (snd t))) pairs"
  using assms(4)
proof (induction pairs)
  case Nil
  show ?case by simp
next
  case (Cons t pairs)
  define m1 where "m1 = name1 @ CHR '':'' # rstrip (CHR '' '' # fst t)"
  define m2 where "m2 = name2 @ CHR '':'' # rstrip (CHR '' '' # snd t)"
  define rest where "rest = concat (map (\<lambda>t. [name1 @ CHR '':'' # rstrip (CHR '' '' # fst t),
                          name2 @ CHR '':'' # rstrip (CHR '' '' # snd t)]) pairs)"
  have p11: "prefix (name1 @ '':'') m1"
    by (simp add: m1_def)
  have p12: "\<not> prefix (name1 @ '':'') m2"
    unfolding m2_def using label_colon_prefix [OF assms(2,3)] assms(1) by simp
  have p22: "prefix (name2 @ '':'') m2"
    by (simp add: m2_def)
  have e1: "strip (drop (length (name1 @ '':'')) m1) = strip (fst t)"
    by (simp add: m1_def strip_rstrip strip_Cons_space)
  have e2: "strip (drop (length (name2 @ '':'')) m2) = strip (snd t)"
    by (simp add: m2_def strip_rstrip strip_Cons_space)
  from Cons.prems have ne: "\<not> (strip (fst t) = [] \<and> strip (snd t) = [])" by simp
  have "pair_messages name1 name2 (m1 # m2 # rest) ('''', '''')
      = pair_messages name1 name2 (m2 # rest) (strip (fst t), '''')"
    using p11 e1 by (simp del: length_append)
  also have "\<dots> = (strip (fst t), strip (snd t)) # pair_messages name1 name2 rest ('''', '''')"
    using p12 p22 e2 ne by (simp add: Let_def del: length_append)
  also have "pair_messages name1 name2 rest ('''', '''')
      = map (\<lambda>t. (strip (fst t), strip (snd t))) pairs"
    unfolding rest_def using Cons.prems by (intro Cons.IH) simp
  finally show ?case
    by (simp add: m1_def m2_def rest_def)
qed

lemma not_plain_character: "\<not> plain_name ''[CHARACTER]''"
  by (simp add: plain_name_def)

lemma match_labels_other_label:
  assumes "CHR '':'' \<notin> set lab" and "\<forall>l \<in> set labs. CHR '':'' \<notin> set l \<and> l \<noteq> lab"
  shows "match_labels labs (lab @ CHR '':'' # t) = None"
proof -
  have "\<forall>l \<in> set labs. \<not> prefix (l @ '':'') (lab @ CHR '':'' # t)"
    using assms label_colon_prefix by blast
  then have "List.find (\<lambda>l. prefix (l @ '':'') (lab @ CHR '':'' # t)) labs = None"
    by (simp add: find_None_iff)
  then show ?thesis by (simp add: match_labels_def)
qed

lemma match_labels_speaker:
  assumes "CHR '':'' \<notin> set name1" and "CHR '':'' \<notin> set name2"
    and "lab = name1 \<or> lab = name2"
  shows "match_labels [name1, name2] (lab @ CHR '':'' # t) = Some (length lab + 1)"
proof (cases "lab = name1")
  case True
  then show ?thesis by (simp add: match_labels_def)
next
  case False
  with assms(3) have l: "lab = name2" by simp
  with False have "\<not> prefix (name1 @ '':'') (lab @ CHR '':'' # t)"
    using label_colon_prefix [OF assms(1,2)] by simp
  with l show ?thesis by (simp add: match_labels_def)
qed

text \<open>The lines of a rendered transcript.\<close>

lemma reconstruct_lines:
  "reconstruct name1 name2 pairs =
     concat (map (\<lambda>L. L @ [nl])
       (concat (map (\<lambda>t. [name1 @ CHR '':'' # CHR '' '' # fst t,
                           name2 @ CHR '':'' # CHR '' '' # snd t]) pairs)))"
  by (induction pairs) (simp_all add: reconstruct_def)

lemma strip_lines:
  assumes "name1 \<noteq> []" "\<not> py_isspace (hd name1)" "name2 \<noteq> []" "\<not> py_isspace (hd name2)"
  shows "map strip (concat (map (\<lambda>t. [name1 @ CHR '':'' # CHR '' '' # fst t,
                                      name2 @ CHR '':'' # CHR '' '' # snd t]) pairs))
     = concat (map (\<lambda>t. [name1 @ CHR '':'' # rstrip (CHR '' '' # fst t),
                          name2 @ CHR '':'' # rstrip (CHR '' '' # snd t)]) pairs)"
  by (induction pairs) (simp_all add: strip_label_line [OF assms(1,2)] strip_label_line [OF assms(3,4)])

lemma map_strip_segments:
  "map strip (butlast (L # map (\<lambda>L. nl # L) ls)) @ [strip (last (L # map (\<lambda>L. nl # L) ls) @ [nl])]
     = map strip (L # ls)"
proof (induction ls arbitrary: L)
  case Nil
  show ?case by (simp add: strip_snoc_space)
next
  case (Cons K ls)
  have "map strip (butlast ((nl # K) # map (\<lambda>L. nl # L) ls))
        @ [strip (last ((nl # K) # map (\<lambda>L. nl # L) ls) @ [nl])]
      = map strip ((nl # K) # ls)"
    by (rule Cons.IH)
  then show ?case by (simp add: strip_Cons_space)
qed

lemma tokenize_rendered:
  assumes n1: "usable_name name1" and n2: "usable_name name2" and ne: "name1 \<noteq> name2"
    and msgs: "\<forall>t \<in> set pairs. nl \<notin> set (fst t) \<and> nl \<notin> set (snd t) \<and>
                 \<not> (strip (fst t) = [] \<and> strip (snd t) = [])"
    and s1: "find_str ''<START>'' (reconstruct name1 name2 pairs) = None"
    and s2: "find_str ''<start>'' (reconstruct name1 name2 pairs) = None"
  shows "tokenize_dialogue (reconstruct name1 name2 pairs) name1 name2
     = map (\<lambda>t. (strip (fst t), strip (snd t))) pairs"
proof (cases pairs)
  case Nil
  then show ?thesis
    by (simp add: tokenize_dialogue_def reconstruct_def finditer_markers_def Let_def)
next
  case (Cons t0 pairs0)
  define T where "T = reconstruct name1 name2 pairs"
  define lines where "lines = concat (map (\<lambda>t. [name1 @ CHR '':'' # CHR '' '' # fst t,
                           name2 @ CHR '':'' # CHR '' '' # snd t]) pairs)"
  define L where "L = name1 @ CHR '':'' # CHR '' '' # fst t0"
  define ls where "ls = (name2 @ CHR '':'' # CHR '' '' # snd t0)
      # concat (map (\<lambda>t. [name1 @ CHR '':'' # CHR '' '' # fst t,
                           name2 @ CHR '':'' # CHR '' '' # snd t]) pairs0)"
  have lines: "lines = L # ls"
    by (simp add: lines_def L_def ls_def Cons)
  have T: "T = L @ concat (map (\<lambda>L. nl # L) ls) @ [nl]"
    unfolding T_def reconstruct_lines lines_def [symmetric] lines by (rule concat_lines)
  from n1 n2 have names: "name1 \<noteq> []" "\<not> py_isspace (hd name1)" "CHR '':'' \<notin> set name1"
      "nl \<notin> set name1" "name1 \<noteq> ''Anon''" "name1 \<noteq> ''anon''" "name1 \<noteq> ''[CHARACTER]''"
      "name2 \<noteq> []" "\<not> py_isspace (hd name2)" "CHR '':'' \<notin> set name2"
      "nl \<notin> set name2" "name2 \<noteq> ''Anon''" "name2 \<noteq> ''anon''" "name2 \<noteq> ''[CHARACTER]''"
    using not_plain_character by (auto simp: usable_name_def)
  have good: "\<forall>K \<in> set lines. \<exists>lab x. K = lab @ CHR '':'' # CHR '' '' # x \<and>
      (lab = name1 \<or> lab = name2) \<and> nl \<notin> set x"
    unfolding lines_def using msgs by auto
  have nonl: "\<forall>K \<in> set lines. nl \<notin> set K"
    using good names(4,11) by auto
  have anon: "\<forall>K \<in> set lines. \<forall>t. match_labels [''Anon'', ''anon''] (K @ t) = None"
  proof (intro ballI allI)
    fix K t assume "K \<in> set lines"
    with good obtain lab x where K: "K = lab @ CHR '':'' # CHR '' '' # x"
      and lab: "lab = name1 \<or> lab = name2" by blast
    have "match_labels [''Anon'', ''anon''] (lab @ CHR '':'' # (CHR '' '' # x @ t)) = None"
      using lab names by (intro match_labels_other_label) auto
    then show "match_labels [''Anon'', ''anon''] (K @ t) = None" by (simp add: K)
  qed
  have chr: "\<forall>K \<in> set lines. \<forall>t. match_labels [''[CHARACTER]''] (K @ t) = None"
  proof (intro ballI allI)
    fix K t assume "K \<in> set lines"
    with good obtain lab x where K: "K = lab @ CHR '':'' # CHR '' '' # x"
      and lab: "lab = name1 \<or> lab = name2" by blast
    have "match_labels [''[CHARACTER]''] (lab @ CHR '':'' # (CHR '' '' # x @ t)) = None"
      using lab names by (intro match_labels_other_label) auto
    then show "match_labels [''[CHARACTER]''] (K @ t) = None" by (simp add: K)
  qed
  have spk: "\<forall>K \<in> set lines. \<forall>t. \<exists>n. match_labels [name1, name2] (K @ t) = Some n \<and> n \<le> length K"
  proof (intro ballI allI)
    fix K t assume "K \<in> set lines"
    with good obtain lab x where K: "K = lab @ CHR '':'' # CHR '' '' # x"
      and lab: "lab = name1 \<or> lab = name2" by blast
    have "match_labels [name1, name2] (lab @ CHR '':'' # (CHR '' '' # x @ t)) = Some (length lab + 1)"
      using names(3,10) lab by (rule match_labels_speaker)
    then have "match_labels [name1, name2] (K @ t) = Some (length lab + 1) \<and> length lab + 1 \<le> length K"
      by (simp add: K)
    then show "\<exists>n. match_labels [name1, name2] (K @ t) = Some n \<and> n \<le> length K" by blast
  qed
  have Lne: "L \<noteq> []" by (simp add: L_def)
  have d1: "replace_all ''<START>'' '''' T = T"
    using s1 unfolding T_def by (rule replace_all_absent)
  have d2: "replace_all ''<start>'' '''' T = T"
    using s2 unfolding T_def by (rule replace_all_absent)
  have d3: "sub_markers [''Anon'', ''anon''] ''You:'' True T = T"
    unfolding T using Lne nonl anon lines by (intro sub_markers_lines) auto
  have d4: "sub_markers [''[CHARACTER]''] (name2 @ '':'') True T = T"
    unfolding T using Lne nonl chr lines by (intro sub_markers_lines) auto
  obtain n where n: "match_labels [name1, name2] (L @ concat (map (\<lambda>L. nl # L) ls) @ [nl]) = Some n"
      "n \<le> length L"
    using spk lines by (metis list.set_intros(1))
  have "finditer_from [name1, name2] 0 T
      = 0 # finditer_from [name1, name2] (length L) (concat (map (\<lambda>L. nl # L) ls) @ [nl])"
    unfolding T using n nonl lines by (intro finditer_at_start) auto
  also have "finditer_from [name1, name2] (length L) (concat (map (\<lambda>L. nl # L) ls) @ [nl])
      = starts (length L) (map (\<lambda>L. nl # L) ls)"
    using nonl spk lines Lne by (intro finditer_tail_lines) auto
  finally have idx: "finditer_markers [name1, name2] T = starts 0 (L # map (\<lambda>L. nl # L) ls)"
    by (simp add: finditer_markers_def)
  have "message_slices (starts 0 (L # map (\<lambda>L. nl # L) ls))
        ([] @ concat (L # map (\<lambda>L. nl # L) ls) @ [nl])
      = map strip (butlast (L # map (\<lambda>L. nl # L) ls))
        @ [strip (last (L # map (\<lambda>L. nl # L) ls) @ [nl])]"
    by (intro message_slices_starts) simp_all
  then have "message_slices (starts 0 (L # map (\<lambda>L. nl # L) ls)) T = map strip lines"
    unfolding map_strip_segments lines by (simp add: T)
  also have "map strip lines
      = concat (map (\<lambda>t. [name1 @ CHR '':'' # rstrip (CHR '' '' # fst t),
                          name2 @ CHR '':'' # rstrip (CHR '' '' # snd t)]) pairs)"
    unfolding lines_def using names(1,2,8,9) by (rule strip_lines)
  finally have msgs': "message_slices (finditer_markers [name1, name2] T) T
      = concat (map (\<lambda>t. [name1 @ CHR '':'' # rstrip (CHR '' '' # fst t),
                          name2 @ CHR '':'' # rstrip (CHR '' '' # snd t)]) pairs)"
    by (simp only: idx)
  have pm: "pair_messages name1 name2 (message_slices (finditer_markers [name1, name2] T) T)
        ('''', '''')
      = map (\<lambda>t. (strip (fst t), strip (snd t))) pairs"
    unfolding msgs' using ne names(3,10) msgs by (intro pair_messages_rendered) auto
  have "finditer_markers [name1, name2] T \<noteq> []"
    by (simp add: idx)
  then have "tokenize_dialogue T name1 name2
      = pair_messages name1 name2 (message_slices (finditer_markers [name1, name2] T) T)
        ('''', '''')"
    by (simp add: tokenize_dialogue_def Let_def d1 d2 d3 d4)
  with pm show ?thesis by (simp add: T_def)
qed

text \<open>
  Claim C8 (as amended).  Take two different speaker names that are non-empty, do not begin
  with white space, contain no colon, no line break and no character that is special in a
  regular expression, and are not \<open>Anon\<close> or \<open>anon\<close>.  For every transcript rendered as
  \<open>{name1}: X\<close> / \<open>{name2}: Y\<close> lines from pairs of one-line messages in which no pair has
  both sides blank, and which contains neither \<open><START>\<close> nor \<open><start>\<close>,
  \<open>tokenize_dialogue\<close> returns one turn per pair, in order, with the stripped \<open>X\<close> on the
  user side and the stripped \<open>Y\<close> on the bot side; when the messages carry no surrounding
  white space, reconstructing \<open>{name1}: {user}\<close> / \<open>{name2}: {bot}\<close> from the turns gives the
  transcript back.
\<close>

theorem tokenize_round_trip:
  "usable_name name1 \<and> usable_name name2 \<and> name1 \<noteq> name2 \<and>
   (\<forall>t \<in> set pairs. nl \<notin> set (fst t) \<and> nl \<notin> set (snd t) \<and>
      \<not> (strip (fst t) = [] \<and> strip (snd t) = [])) \<and>
   find_str ''<START>'' (reconstruct name1 name2 pairs) = None \<and>
   find_str ''<start>'' (reconstruct name1 name2 pairs) = None \<longrightarrow>
   tokenize_dialogue (reconstruct name1 name2 pairs) name1 name2
     = map (\<lambda>t. (strip (fst t), strip (snd t))) pairs \<and>
   ((\<forall>t \<in> set pairs. strip (fst t) = fst t \<and> strip (snd t) = snd t) \<longrightarrow>
      reconstruct name1 name2 (tokenize_dialogue (reconstruct name1 name2 pairs) name1 name2)
        = reconstruct name1 name2 pairs)"
proof (intro impI, elim conjE)
  assume a: "usable_name name1" "usable_name name2" "name1 \<noteq> name2"
    "\<forall>t \<in> set pairs. nl \<notin> set (fst t) \<and> nl \<notin> set (snd t) \<and>
      \<not> (strip (fst t) = [] \<and> strip (snd t) = [])"
    "find_str ''<START>'' (reconstruct name1 name2 pairs) = None"
    "find_str ''<start>'' (reconstruct name1 name2 pairs) = None"
  have tok: "tokenize_dialogue (reconstruct name1 name2 pairs) name1 name2
     = map (\<lambda>t. (strip (fst t), strip (snd t))) pairs"
    using a by (rule tokenize_rendered)
  have "reconstruct name1 name2 (tokenize_dialogue (reconstruct name1 name2 pairs) name1 name2)
        = reconstruct name1 name2 pairs"
    if st: "\<forall>t \<in> set pairs. strip (fst t) = fst t \<and> strip (snd t) = snd t"
  proof -
    from st have "map (\<lambda>t. (strip (fst t), strip (snd t))) pairs = pairs"
      by (induction pairs) auto
    with tok show ?thesis by simp
  qed
  with tok show "tokenize_dialogue (reconstruct name1 name2 pairs) name1 name2
     = map (\<lambda>t. (strip (fst t), strip (snd t))) pairs \<and>
   ((\<forall>t \<in> set pairs. strip (fst t) = fst t \<and> strip (snd t) = snd t) \<longrightarrow>
      reconstruct name1 name2 (tokenize_dialogue (reconstruct name1 name2 pairs) name1 name2)
        = reconstruct name1 name2 pairs)"
    by blast
qed

text \<open>
  The round trip on a transcript of two turns between \<open>You\<close> and \<open>Bot\<close>, the second turn with
  an empty user side.
\<close>

theorem tokenize_round_trip_witness:
  "usable_name ''You'' \<and> usable_name ''Bot'' \<and>
   reconstruct ''You'' ''Bot'' [(''Hi'', ''Hello!''), ('''', ''How are you?'')]
     = ''You: Hi\<newline>Bot: Hello!\<newline>You: \<newline>Bot: How are you?\<newline>'' \<and>
   tokenize_dialogue ''You: Hi\<newline>Bot: Hello!\<newline>You: \<newline>Bot: How are you?\<newline>'' ''You'' ''Bot''
     = [(''Hi'', ''Hello!''), ('''', ''How are you?'')] \<and>
   reconstruct ''You'' ''Bot''
       (tokenize_dialogue ''You: Hi\<newline>Bot: Hello!\<newline>You: \<newline>Bot: How are you?\<newline>'' ''You'' ''Bot'')
     = ''You: Hi\<newline>Bot: Hello!\<newline>You: \<newline>Bot: How are you?\<newline>''"
proof -
  let ?ps = "[(''Hi'', ''Hello!''), ('''', ''How are you?'')]"
  have u1: "usable_name ''You''"
    by (simp add: usable_name_def plain_name_def py_isspace_def)
  have u2: "usable_name ''Bot''"
    by (simp add: usable_name_def plain_name_def py_isspace_def)
  have ne: "''You'' \<noteq> ''Bot''" by simp
  have r: "reconstruct ''You'' ''Bot'' ?ps
      = ''You: Hi\<newline>Bot: Hello!\<newline>You: \<newline>Bot: How are you?\<newline>''"
    by (simp add: reconstruct_def)
  have st: "strip ''Hi'' = ''Hi'' \<and> strip ''Hello!'' = ''Hello!'' \<and> strip '''' = '''' \<and>
      strip ''How are you?'' = ''How are you?''"
    by code_simp
  have ms: "\<forall>t \<in> set ?ps. nl \<notin> set (fst t) \<and> nl \<notin> set (snd t) \<and>
      \<not> (strip (fst t) = [] \<and> strip (snd t) = [])"
    using st by simp
  have sd: "\<forall>t \<in> set ?ps. strip (fst t) = fst t \<and> strip (snd t) = snd t"
    using st by simp
  have f1: "find_str ''<START>'' (reconstruct ''You'' ''Bot'' ?ps) = None"
    unfolding r by code_simp
  have f2: "find_str ''<start>'' (reconstruct ''You'' ''Bot'' ?ps) = None"
    unfolding r by code_simp
  note res = tokenize_round_trip [of "''You''" "''Bot''" ?ps, THEN mp,
      OF conjI [OF u1 conjI [OF u2 conjI [OF ne conjI [OF ms conjI [OF f1 f2]]]]]]
  from res have t: "tokenize_dialogue (reconstruct ''You'' ''Bot'' ?ps) ''You'' ''Bot''
      = map (\<lambda>t. (strip (fst t), strip (snd t))) ?ps"
    by (rule conjunct1)
  from res [THEN conjunct2, THEN mp, OF sd]
  have rt: "reconstruct ''You'' ''Bot'' (tokenize_dialogue (reconstruct ''You'' ''Bot'' ?ps) ''You'' ''Bot'')
      = reconstruct ''You'' ''Bot'' ?ps" .
  from t st have t': "tokenize_dialogue (reconstruct ''You'' ''Bot'' ?ps) ''You'' ''Bot'' = ?ps"
    by simp
  from u1 u2 r t' rt show ?thesis
    by (simp only: r)
qed

text \<open>
  The restriction on the names is needed: a label \<open>Anon:\<close> at the start of a line is rewritten
  to \<open>You:\<close> before the labels are searched, so with \<open>name1 = Anon\<close> the user's line is no longer
  found and its message is dropped from the turn.
\<close>

theorem tokenize_round_trip_counterexample:
  "reconstruct ''Anon'' ''Bot'' [(''hi'', ''hello'')] = ''Anon: hi\<newline>Bot: hello\<newline>'' \<and>
   tokenize_dialogue ''Anon: hi\<newline>Bot: hello\<newline>'' ''Anon'' ''Bot'' = [('''', ''hello'')] \<and>
   reconstruct ''Anon'' ''Bot'' (tokenize_dialogue ''Anon: hi\<newline>Bot: hello\<newline>'' ''Anon'' ''Bot'')
     = ''Anon: \<newline>Bot: hello\<newline>''"
  by code_simp

end
